theory Spec2Isabelle
  imports Main "HOL-Library.Word" "HOL-Library.Multiset"
begin

unbundle bit_operations_syntax

section \<open>ACPI table discovery of gopher-os (package acpi)\<close>

text \<open>
  The development embeds the driver of \<^verbatim>\<open>device/acpi\<close>: the checksum validator
  \<^verbatim>\<open>validTable\<close>, the page reservation \<^verbatim>\<open>mapRegion\<close>, the table mapper
  \<^verbatim>\<open>mapACPITable\<close>, the walker \<^verbatim>\<open>parseRSDT\<close>, \<^verbatim>\<open>DriverInit\<close>, the root pointer
  locator \<^verbatim>\<open>locateRSDT\<close> and \<^verbatim>\<open>probeForACPI\<close>.

  The target is amd64: \<^verbatim>\<open>uintptr\<close>, \<^verbatim>\<open>vmm.Page\<close>, \<^verbatim>\<open>pmm.Frame\<close> and \<^verbatim>\<open>mem.Size\<close> are
  64-bit unsigned words, multi-byte fields are little endian. Physical memory is a total
  function from addresses to bytes; a read of an unmapped address (a page fault on the
  machine) is not modelled.
\<close>

subsection \<open>Data\<close>

type_synonym u8 = "8 word"
type_synonym u32 = "32 word"
type_synonym u64 = "64 word"
type_synonym uintptr = "64 word"
type_synonym page = "64 word"
type_synonym memory = "uintptr \<Rightarrow> u8"

text \<open>
  \<^verbatim>\<open>*kernel.Error\<close> values are compared by identity. The package owns two of them;
  every other error comes from the mapping primitives and is told apart by its message.
\<close>

datatype kerror = ErrMissingRSDP | ErrTableChecksumMismatch | ErrOther string

text \<open>
  The calls made to the external collaborators, in order, each with what it returned:
  \<^verbatim>\<open>mapFn(page, pmm.Frame(page), vmm.FlagPresent)\<close> (the frame and the flags are
  the same at both call sites, so only the page is recorded), \<^verbatim>\<open>unmapFn(page)\<close> and
  \<^verbatim>\<open>allocator.ReclaimRegions()\<close>.
\<close>

datatype event = MapPage page "kerror option" | UnmapPage page "kerror option" | ReclaimRegions

text \<open>
  The surroundings of the driver: the package variables \<^verbatim>\<open>mapFn\<close> and \<^verbatim>\<open>unmapFn\<close>
  (their answer may depend on the calls made so far), the physical memory seen through
  the identity mapping, and the order in which a Go \<^verbatim>\<open>range\<close> over a map visits its
  keys, which the language leaves open.
\<close>

record platform =
  mapFn :: "event list \<Rightarrow> page \<Rightarrow> kerror option"
  unmapFn :: "event list \<Rightarrow> page \<Rightarrow> kerror option"
  memory :: memory
  rangeOrder :: "page list \<Rightarrow> page list"

text \<open>
  \<^verbatim>\<open>mappedPages map[vmm.Page]struct{}\<close> is a set of pages; it is kept as the list of
  its keys in insertion order, and a key is only ever added after a membership test.
\<close>

record acpiDriver =
  mappedPages :: "page list"
  rsdtAddr :: uintptr
  useXSDT :: bool

record sdtHeader =
  signature :: "u8 list"
  length' :: u32
  revision :: u8
  checksum :: u8
  oemID :: "u8 list"
  oemTableID :: "u8 list"
  oemRevision :: u32
  creatorID :: u32
  creatorRevision :: u32

subsection \<open>Constants\<close>

definition rsdpLocationLow :: uintptr where "rsdpLocationLow = 0xe0000"
definition rsdpLocationHi :: uintptr where "rsdpLocationHi = 0xfffff"
definition rsdpRevisionACPI1 :: u8 where "rsdpRevisionACPI1 = 0"

definition rsdtSignature :: "u8 list" where
  "rsdtSignature = [0x52, 0x53, 0x44, 0x20, 0x50, 0x54, 0x52, 0x20]"

text \<open>
  \<^verbatim>\<open>unsafe.Sizeof\<close> under the amd64 layout rules. \<^verbatim>\<open>rsdpDescriptor\<close>: signature at 0,
  checksum at 8, oemID at 9, revision at 15, rsdtAddr at 16; 20 bytes, alignment 4.
  \<^verbatim>\<open>rsdpDescriptor2\<close>: the embedded descriptor at 0, length at 20, xsdtAddr at 24,
  extendedChecksum at 32, reserved at 33; the fields end at 36 and the struct, whose
  alignment is that of its \<^verbatim>\<open>uint64\<close> field, is padded to 40 bytes.
  \<^verbatim>\<open>sdtHeader\<close>: signature at 0, length at 4, revision at 8, checksum at 9, oemID at
  10, oemTableID at 16, oemRevision at 24, creatorID at 28, creatorRevision at 32;
  36 bytes.
\<close>

definition sizeofRsdpDescriptor :: u32 where "sizeofRsdpDescriptor = 20"
definition sizeofRsdpDescriptor2 :: u32 where "sizeofRsdpDescriptor2 = 40"
definition sizeofHeader :: uintptr where "sizeofHeader = 36"

text \<open>
  Modelled from the spec: packages \<^verbatim>\<open>mem\<close> and \<^verbatim>\<open>vmm\<close> are not among the sources.
  The spec speaks of page granularity, of rounding an address down to its page and of
  pages identified by number; the 4 KiB page of amd64 is taken.
\<close>

definition PageShift :: nat where "PageShift = 12"
definition PageSize :: u64 where "PageSize = push_bit PageShift 1"

definition PageFromAddress :: "uintptr \<Rightarrow> page" where
  "PageFromAddress virtAddr = drop_bit PageShift (virtAddr AND NOT (PageSize - 1))"

subsection \<open>Reading memory\<close>

definition read32 :: "memory \<Rightarrow> uintptr \<Rightarrow> u32" where
  "read32 m a = ucast (m a) OR push_bit 8 (ucast (m (a + 1)))
     OR push_bit 16 (ucast (m (a + 2))) OR push_bit 24 (ucast (m (a + 3)))"

definition read64 :: "memory \<Rightarrow> uintptr \<Rightarrow> u64" where
  "read64 m a = ucast (read32 m a) OR push_bit 32 (ucast (read32 m (a + 4)))"

definition readBytes :: "memory \<Rightarrow> uintptr \<Rightarrow> nat \<Rightarrow> u8 list" where
  "readBytes m a n = map (\<lambda>i. m (a + of_nat i)) [0..<n]"

definition readHeader :: "memory \<Rightarrow> uintptr \<Rightarrow> sdtHeader" where
  "readHeader m a = \<lparr> signature = readBytes m a 4, length' = read32 m (a + 4),
     revision = m (a + 8), checksum = m (a + 9), oemID = readBytes m (a + 10) 6,
     oemTableID = readBytes m (a + 16) 8, oemRevision = read32 m (a + 24),
     creatorID = read32 m (a + 28), creatorRevision = read32 m (a + 32) \<rparr>"

subsection \<open>validTable\<close>

function validTable_loop :: "memory \<Rightarrow> uintptr \<Rightarrow> u32 \<Rightarrow> u32 \<Rightarrow> u8 \<Rightarrow> u8" where
  "validTable_loop m tablePtr tableLength i sum8 =
     (if i < tableLength
      then validTable_loop m tablePtr tableLength (i + 1) (sum8 + m (tablePtr + ucast i))
      else sum8)"
  by pat_completeness auto
termination
proof (relation "measure (\<lambda>(m, tablePtr, tableLength, i, sum8). unat tableLength - unat i)")
  fix m :: memory and tablePtr :: uintptr and tableLength i :: u32 and sum8 :: u8
  assume "i < tableLength"
  then have lt: "unat i < unat tableLength" by (simp add: word_less_nat_alt)
  have "unat tableLength < 2 ^ LENGTH(32)" by (rule unsigned_less)
  with lt have "unat i + unat (1::u32) < 2 ^ LENGTH(32)" unfolding unsigned_1 by linarith
  then have "unat (i + 1) = unat i + unat (1::u32)" by (simp only: unat_add_lem)
  with lt show "((m, tablePtr, tableLength, i + 1, sum8 + m (tablePtr + ucast i)),
                 (m, tablePtr, tableLength, i, sum8))
        \<in> measure (\<lambda>(m, tablePtr, tableLength, i, sum8). unat tableLength - unat i)"
    by simp
qed simp

declare validTable_loop.simps [simp del]

definition validTable :: "memory \<Rightarrow> uintptr \<Rightarrow> u32 \<Rightarrow> bool" where
  "validTable m tablePtr tableLength = (validTable_loop m tablePtr tableLength 0 0 = 0)"

subsection \<open>mapRegion\<close>

text \<open>
  The loop of \<^verbatim>\<open>mapRegion\<close>, from \<^verbatim>\<open>curPage\<close> on. A page found in the reservation
  map is passed over; a failing \<^verbatim>\<open>mapFn\<close> ends the loop with its error and the page
  is not recorded.
\<close>

function mapRegion_loop ::
  "platform \<Rightarrow> uintptr \<Rightarrow> page \<Rightarrow> page list \<times> event list
     \<Rightarrow> kerror option \<times> page list \<times> event list" where
  "mapRegion_loop hw endAddr curPage (mp, tr) =
     (if curPage \<le> PageFromAddress endAddr then
        if curPage \<in> set mp then mapRegion_loop hw endAddr (curPage + 1) (mp, tr)
        else (case mapFn hw tr curPage of
                Some err \<Rightarrow> (Some err, mp, tr @ [MapPage curPage (Some err)])
              | None \<Rightarrow> mapRegion_loop hw endAddr (curPage + 1)
                          (mp @ [curPage], tr @ [MapPage curPage None]))
      else (None, mp, tr))"
  by pat_completeness auto
termination
proof (relation "measure (\<lambda>(hw, endAddr, curPage, s).
                    Suc (unat (PageFromAddress endAddr)) - unat curPage)")
  have step: "Suc (unat (PageFromAddress endAddr)) - unat (curPage + 1)
                < Suc (unat (PageFromAddress endAddr)) - unat curPage"
    if le: "curPage \<le> PageFromAddress endAddr" for endAddr curPage :: uintptr
  proof -
    from le have a: "unat curPage \<le> unat (PageFromAddress endAddr)"
      by (simp add: word_le_nat_alt)
    have "unat (endAddr AND NOT (PageSize - 1)) < 2 ^ LENGTH(64)" by (rule unsigned_less)
    then have "unat (PageFromAddress endAddr) < 2 ^ 52"
      by (simp add: PageFromAddress_def PageShift_def drop_bit_eq_div unat_div
          less_mult_imp_div_less)
    with a have "unat curPage + unat (1::u64) < 2 ^ LENGTH(64)" unfolding unsigned_1 by simp
    then have "unat (curPage + 1) = unat curPage + unat (1::u64)"
      by (simp only: unat_add_lem)
    with a show ?thesis by simp
  qed
  show "wf (measure (\<lambda>(hw, endAddr, curPage, s).
              Suc (unat (PageFromAddress endAddr)) - unat curPage))" by simp
  show "((hw, endAddr, curPage + 1, mp, tr), (hw, endAddr, curPage, mp, tr))
          \<in> measure (\<lambda>(hw, endAddr, curPage, s).
                Suc (unat (PageFromAddress endAddr)) - unat curPage)"
    if "curPage \<le> PageFromAddress endAddr"
    for hw :: platform and endAddr curPage mp and tr :: "event list"
    using step [OF that] by simp
  show "((hw, endAddr, curPage + 1, mp @ [curPage], tr @ [MapPage curPage None]),
         (hw, endAddr, curPage, mp, tr))
          \<in> measure (\<lambda>(hw, endAddr, curPage, s).
                Suc (unat (PageFromAddress endAddr)) - unat curPage)"
    if "curPage \<le> PageFromAddress endAddr"
    for hw :: platform and endAddr curPage mp and tr :: "event list"
    using step [OF that] by simp
qed

declare mapRegion_loop.simps [simp del]

fun mapRegion ::
  "platform \<Rightarrow> uintptr \<Rightarrow> u64 \<Rightarrow> acpiDriver \<times> event list
     \<Rightarrow> kerror option \<times> acpiDriver \<times> event list" where
  "mapRegion hw startAddr size' (drv, tr) =
     (let pageSizeMinus1 = PageSize - 1;
          endAddr = (startAddr + size' + pageSizeMinus1) AND NOT pageSizeMinus1;
          startAddr = startAddr AND NOT pageSizeMinus1
      in case mapRegion_loop hw endAddr (PageFromAddress startAddr) (mappedPages drv, tr) of
           (err, mp, tr') \<Rightarrow> (err, drv\<lparr>mappedPages := mp\<rparr>, tr'))"

subsection \<open>mapACPITable\<close>

text \<open>
  The result is the error or the header; the second result of the source,
  \<^verbatim>\<open>sizeofHeader\<close>, is the constant of that name on every path.
\<close>

fun mapACPITable ::
  "platform \<Rightarrow> uintptr \<Rightarrow> acpiDriver \<times> event list
     \<Rightarrow> (kerror + sdtHeader) \<times> acpiDriver \<times> event list" where
  "mapACPITable hw tableAddr (drv, tr) =
     (case mapRegion hw tableAddr sizeofHeader (drv, tr) of
        (Some err, drv1, tr1) \<Rightarrow> (Inl err, drv1, tr1)
      | (None, drv1, tr1) \<Rightarrow>
          (let header = readHeader (memory hw) tableAddr
           in case mapRegion hw tableAddr (ucast (length' header)) (drv1, tr1) of
                (Some err, drv2, tr2) \<Rightarrow> (Inl err, drv2, tr2)
              | (None, drv2, tr2) \<Rightarrow>
                  if \<not> validTable (memory hw) tableAddr (length' header)
                  then (Inl ErrTableChecksumMismatch, drv2, tr2)
                  else (Inr header, drv2, tr2)))"

subsection \<open>parseRSDT\<close>

text \<open>
  The two loops that fill \<^verbatim>\<open>sdtAddresses\<close>: \<^verbatim>\<open>n\<close> entries are still to be read,
  the next one at \<^verbatim>\<open>curPtr\<close>.
\<close>

primrec readAddresses64 :: "memory \<Rightarrow> uintptr \<Rightarrow> nat \<Rightarrow> uintptr list" where
  "readAddresses64 m curPtr 0 = []"
| "readAddresses64 m curPtr (Suc n) = read64 m curPtr # readAddresses64 m (curPtr + 8) n"

primrec readAddresses32 :: "memory \<Rightarrow> uintptr \<Rightarrow> nat \<Rightarrow> uintptr list" where
  "readAddresses32 m curPtr 0 = []"
| "readAddresses32 m curPtr (Suc n) =
     ucast (read32 m curPtr) # readAddresses32 m (curPtr + 4) n"

definition sdtAddresses :: "memory \<Rightarrow> acpiDriver \<Rightarrow> sdtHeader \<Rightarrow> uintptr list" where
  "sdtAddresses m drv header =
     (let payloadLen = length' header - ucast sizeofHeader
      in if useXSDT drv
         then readAddresses64 m (rsdtAddr drv + sizeofHeader) (unat (drop_bit 3 payloadLen))
         else readAddresses32 m (rsdtAddr drv + sizeofHeader) (unat (drop_bit 2 payloadLen)))"

text \<open>
  What \<^verbatim>\<open>kfmt.Fprintf(w, "found %s at 0x%16x, len: %6d\n", signature, addr,
  header.length)\<close> writes is kept as the triple of its arguments.
\<close>

type_synonym report = "u8 list \<times> uintptr \<times> u32"

fun parseRSDT_tables ::
  "platform \<Rightarrow> uintptr list \<Rightarrow> acpiDriver \<times> event list \<times> report list
     \<Rightarrow> kerror option \<times> acpiDriver \<times> event list \<times> report list" where
  "parseRSDT_tables hw [] (drv, tr, w) = (None, drv, tr, w)"
| "parseRSDT_tables hw (addr # rest) (drv, tr, w) =
     (case mapACPITable hw addr (drv, tr) of
        (Inl err, drv', tr') \<Rightarrow>
          (if err = ErrTableChecksumMismatch then parseRSDT_tables hw rest (drv', tr', w)
           else (Some err, drv', tr', w))
      | (Inr header, drv', tr') \<Rightarrow>
          parseRSDT_tables hw rest
            (drv', tr', w @ [(signature header, addr, length' header)]))"

fun parseRSDT ::
  "platform \<Rightarrow> acpiDriver \<times> event list \<times> report list
     \<Rightarrow> kerror option \<times> acpiDriver \<times> event list \<times> report list" where
  "parseRSDT hw (drv, tr, w) =
     (case mapACPITable hw (rsdtAddr drv) (drv, tr) of
        (Inl err, drv', tr') \<Rightarrow> (Some err, drv', tr', w)
      | (Inr header, drv', tr') \<Rightarrow>
          parseRSDT_tables hw (sdtAddresses (memory hw) drv' header) (drv', tr', w))"

subsection \<open>DriverInit\<close>

text \<open>The loop of the deferred function, over the keys still to be visited.\<close>

fun unmapPages :: "platform \<Rightarrow> page list \<Rightarrow> bool \<times> event list \<Rightarrow> bool \<times> event list" where
  "unmapPages hw [] (gotUnmapErr, tr) = (gotUnmapErr, tr)"
| "unmapPages hw (p # ps) (gotUnmapErr, tr) =
     (case unmapFn hw tr p of
        Some err \<Rightarrow> unmapPages hw ps (True, tr @ [UnmapPage p (Some err)])
      | None \<Rightarrow> unmapPages hw ps (gotUnmapErr, tr @ [UnmapPage p None]))"

fun DriverInit ::
  "platform \<Rightarrow> acpiDriver \<times> event list \<times> report list
     \<Rightarrow> kerror option \<times> acpiDriver \<times> event list \<times> report list" where
  "DriverInit hw (drv, tr, w) =
     (case parseRSDT hw (drv\<lparr>mappedPages := []\<rparr>, tr, w) of
        (err, drv1, tr1, w1) \<Rightarrow>
          (case unmapPages hw (rangeOrder hw (mappedPages drv1)) (False, tr1) of
             (gotUnmapErr, tr2) \<Rightarrow>
               (err, drv1, if \<not> gotUnmapErr then tr2 @ [ReclaimRegions] else tr2, w1)))"

subsection \<open>locateRSDT\<close>

text \<open>The loop that sets up the identity mapping of the scan window.\<close>

function locateRSDT_map ::
  "platform \<Rightarrow> page \<Rightarrow> event list \<Rightarrow> kerror option \<times> event list" where
  "locateRSDT_map hw curPage tr =
     (if curPage \<le> PageFromAddress rsdpLocationHi then
        (case mapFn hw tr curPage of
           Some err \<Rightarrow> (Some err, tr @ [MapPage curPage (Some err)])
         | None \<Rightarrow> locateRSDT_map hw (curPage + 1) (tr @ [MapPage curPage None]))
      else (None, tr))"
  by pat_completeness auto
termination
proof (relation "measure (\<lambda>(hw, curPage, tr).
                    Suc (unat (PageFromAddress rsdpLocationHi)) - unat curPage)")
  show "wf (measure (\<lambda>(hw, curPage, tr).
              Suc (unat (PageFromAddress rsdpLocationHi)) - unat curPage))" by simp
  show "((hw, curPage + 1, tr @ [MapPage curPage None]), (hw, curPage, tr))
          \<in> measure (\<lambda>(hw, curPage, tr).
                Suc (unat (PageFromAddress rsdpLocationHi)) - unat curPage)"
    if le: "curPage \<le> PageFromAddress rsdpLocationHi"
    for hw :: platform and curPage and tr :: "event list"
  proof -
    have hi: "unat (PageFromAddress rsdpLocationHi) = 255"
      by (simp add: PageFromAddress_def PageShift_def PageSize_def rsdpLocationHi_def)
    from le have a: "unat curPage \<le> 255"
      by (simp add: word_le_nat_alt hi)
    then have "unat curPage + unat (1::u64) < 2 ^ LENGTH(64)" unfolding unsigned_1 by simp
    then have "unat (curPage + 1) = unat curPage + unat (1::u64)"
      by (simp only: unat_add_lem)
    with a show ?thesis by (simp add: hi)
  qed
qed

declare locateRSDT_map.simps [simp del]

text \<open>The deferred loop: every page of the window is unmapped, the results are dropped.\<close>

function locateRSDT_unmap :: "platform \<Rightarrow> page \<Rightarrow> event list \<Rightarrow> event list" where
  "locateRSDT_unmap hw curPage tr =
     (if curPage \<le> PageFromAddress rsdpLocationHi
      then locateRSDT_unmap hw (curPage + 1) (tr @ [UnmapPage curPage (unmapFn hw tr curPage)])
      else tr)"
  by pat_completeness auto
termination
proof (relation "measure (\<lambda>(hw, curPage, tr).
                    Suc (unat (PageFromAddress rsdpLocationHi)) - unat curPage)")
  show "wf (measure (\<lambda>(hw, curPage, tr).
              Suc (unat (PageFromAddress rsdpLocationHi)) - unat curPage))" by simp
  show "((hw, curPage + 1, tr @ [UnmapPage curPage (unmapFn hw tr curPage)]), (hw, curPage, tr))
          \<in> measure (\<lambda>(hw, curPage, tr).
                Suc (unat (PageFromAddress rsdpLocationHi)) - unat curPage)"
    if le: "curPage \<le> PageFromAddress rsdpLocationHi"
    for hw :: platform and curPage and tr :: "event list"
  proof -
    have hi: "unat (PageFromAddress rsdpLocationHi) = 255"
      by (simp add: PageFromAddress_def PageShift_def PageSize_def rsdpLocationHi_def)
    from le have a: "unat curPage \<le> 255"
      by (simp add: word_le_nat_alt hi)
    then have "unat curPage + unat (1::u64) < 2 ^ LENGTH(64)" unfolding unsigned_1 by simp
    then have "unat (curPage + 1) = unat curPage + unat (1::u64)"
      by (simp only: unat_add_lem)
    with a show ?thesis by (simp add: hi)
  qed
qed

declare locateRSDT_unmap.simps [simp del]

text \<open>
  The scan, from \<^verbatim>\<open>curPtr\<close> on. \<^verbatim>\<open>rsdp.signature\<close>, \<^verbatim>\<open>rsdp.revision\<close>,
  \<^verbatim>\<open>rsdp.rsdtAddr\<close> and \<^verbatim>\<open>rsdp2.xsdtAddr\<close> are the bytes at offsets 0, 15, 16 and 24
  of the candidate.
\<close>

definition signatureMatches :: "memory \<Rightarrow> uintptr \<Rightarrow> bool" where
  "signatureMatches m curPtr = (readBytes m curPtr 8 = rsdtSignature)"

function locateRSDT_scan :: "memory \<Rightarrow> uintptr \<Rightarrow> kerror + uintptr \<times> bool" where
  "locateRSDT_scan m curPtr =
     (if curPtr < rsdpLocationHi then
        if \<not> signatureMatches m curPtr then locateRSDT_scan m (curPtr + 16)
        else if m (curPtr + 15) = rsdpRevisionACPI1 then
          if \<not> validTable m curPtr sizeofRsdpDescriptor then locateRSDT_scan m (curPtr + 16)
          else Inr (ucast (read32 m (curPtr + 16)), False)
        else if \<not> validTable m curPtr sizeofRsdpDescriptor2 then locateRSDT_scan m (curPtr + 16)
        else Inr (read64 m (curPtr + 24), True)
      else Inl ErrMissingRSDP)"
  by pat_completeness auto
termination
proof (relation "measure (\<lambda>(m, curPtr). unat rsdpLocationHi + 16 - unat curPtr)")
  have step: "unat rsdpLocationHi + 16 - unat (curPtr + 16)
                < unat rsdpLocationHi + 16 - unat curPtr"
    if lt: "curPtr < rsdpLocationHi" for curPtr :: uintptr
  proof -
    from lt have a: "unat curPtr < 1048575"
      by (simp add: word_less_nat_alt rsdpLocationHi_def)
    then have "unat curPtr + unat (16::u64) < 2 ^ LENGTH(64)" by simp
    then have "unat (curPtr + 16) = unat curPtr + unat (16::u64)"
      by (simp only: unat_add_lem)
    with a show ?thesis by (simp add: rsdpLocationHi_def)
  qed
  show "wf (measure (\<lambda>(m, curPtr). unat rsdpLocationHi + 16 - unat curPtr))" by simp
  show "((m, curPtr + 16), (m, curPtr))
          \<in> measure (\<lambda>(m, curPtr). unat rsdpLocationHi + 16 - unat curPtr)"
    if "curPtr < rsdpLocationHi" for m :: memory and curPtr
    using step [OF that] by simp
  show "((m, curPtr + 16), (m, curPtr))
          \<in> measure (\<lambda>(m, curPtr). unat rsdpLocationHi + 16 - unat curPtr)"
    if "curPtr < rsdpLocationHi" for m :: memory and curPtr
    using step [OF that] by simp
  show "((m, curPtr + 16), (m, curPtr))
          \<in> measure (\<lambda>(m, curPtr). unat rsdpLocationHi + 16 - unat curPtr)"
    if "curPtr < rsdpLocationHi" for m :: memory and curPtr
    using step [OF that] by simp
qed

declare locateRSDT_scan.simps [simp del]

text \<open>
  \<^verbatim>\<open>locateRSDT\<close> returns \<^verbatim>\<open>(0, false, err)\<close> on an error and \<^verbatim>\<open>(addr, useXSDT,
  nil)\<close> otherwise; the deferred loop runs on every return.
\<close>

definition locateRSDT :: "platform \<Rightarrow> event list \<Rightarrow> (kerror + uintptr \<times> bool) \<times> event list" where
  "locateRSDT hw tr =
     (case locateRSDT_map hw (PageFromAddress rsdpLocationLow) tr of
        (Some err, tr1) \<Rightarrow>
          (Inl err, locateRSDT_unmap hw (PageFromAddress rsdpLocationLow) tr1)
      | (None, tr1) \<Rightarrow>
          (locateRSDT_scan (memory hw) rsdpLocationLow,
           locateRSDT_unmap hw (PageFromAddress rsdpLocationLow) tr1))"

subsection \<open>probeForACPI\<close>

text \<open>
  The driver is returned with a nil \<^verbatim>\<open>mappedPages\<close>, which reads as the empty map.
\<close>

definition probeForACPI :: "platform \<Rightarrow> event list \<Rightarrow> acpiDriver option \<times> event list" where
  "probeForACPI hw tr =
     (case locateRSDT hw tr of
        (Inr (rsdtAddr', useXSDT'), tr') \<Rightarrow>
          (Some \<lparr> mappedPages = [], rsdtAddr = rsdtAddr', useXSDT = useXSDT' \<rparr>, tr')
      | (Inl err, tr') \<Rightarrow> (None, tr'))"

section \<open>Reading the trace of calls\<close>

text \<open>
  The pages of the successful \<^verbatim>\<open>mapFn\<close> calls, of all \<^verbatim>\<open>mapFn\<close> calls and of all
  \<^verbatim>\<open>unmapFn\<close> calls of a trace, in the order of the calls.
\<close>

fun mappedOk :: "event list \<Rightarrow> page list" where
  "mappedOk [] = []"
| "mappedOk (MapPage p None # es) = p # mappedOk es"
| "mappedOk (e # es) = mappedOk es"

fun mapCalls :: "event list \<Rightarrow> page list" where
  "mapCalls [] = []"
| "mapCalls (MapPage p r # es) = p # mapCalls es"
| "mapCalls (e # es) = mapCalls es"

fun unmapCalls :: "event list \<Rightarrow> page list" where
  "unmapCalls [] = []"
| "unmapCalls (UnmapPage p r # es) = p # unmapCalls es"
| "unmapCalls (e # es) = unmapCalls es"

fun isMapEvent :: "event \<Rightarrow> bool" where
  "isMapEvent (MapPage p r) = True"
| "isMapEvent e = False"

text \<open>
  \<^verbatim>\<open>reservedSince (mp, tr) (mp', tr')\<close>: the trace has grown from \<^verbatim>\<open>tr\<close> to \<^verbatim>\<open>tr'\<close> by
  \<^verbatim>\<open>mapFn\<close> calls only, none of them for a page of \<^verbatim>\<open>mp\<close>, and the reservation map has
  grown from \<^verbatim>\<open>mp\<close> to \<^verbatim>\<open>mp'\<close> by the pages of the successful ones, no page twice.
\<close>

definition reservedSince :: "page list \<times> event list \<Rightarrow> page list \<times> event list \<Rightarrow> bool" where
  "reservedSince s s' =
     (case (s, s') of ((mp, tr), (mp', tr')) \<Rightarrow>
        take (length tr) tr' = tr \<and>
        (let ms = drop (length tr) tr'
         in list_all isMapEvent ms \<and> mp' = mp @ mappedOk ms \<and> distinct (mappedOk ms) \<and>
            list_all (\<lambda>p. p \<notin> set mp) (mapCalls ms)))"





section \<open>The candidates of the scan\<close>

text \<open>
  The scan visits the addresses \<^verbatim>\<open>rsdpLocationLow + 16 * k\<close> below \<^verbatim>\<open>rsdpLocationHi\<close>,
  that is \<^verbatim>\<open>k\<close> from 0 to 8191. A candidate is accepted when its signature matches and
  the checksum that the scan computes for its revision is valid.
\<close>

definition candidate :: "nat \<Rightarrow> uintptr" where
  "candidate k = rsdpLocationLow + 16 * of_nat k"

definition candidateAccepted :: "memory \<Rightarrow> uintptr \<Rightarrow> bool" where
  "candidateAccepted m p =
     (signatureMatches m p \<and>
      (if m (p + 15) = rsdpRevisionACPI1 then validTable m p sizeofRsdpDescriptor
       else validTable m p sizeofRsdpDescriptor2))"

section \<open>Example inputs\<close>

text \<open>Two bytes at 0x1000 that sum to 256, zero bytes elsewhere.\<close>

definition checksumExample :: memory where
  "checksumExample = (\<lambda>a. if a = 0x1000 then 0xFF else if a = 0x1001 then 1 else 0)"

text \<open>A memory that holds the bytes \<^verbatim>\<open>bs\<close> from address \<^verbatim>\<open>base\<close> on and is \<^verbatim>\<open>m\<close> elsewhere.\<close>

definition bytesAt :: "uintptr \<Rightarrow> u8 list \<Rightarrow> memory \<Rightarrow> memory" where
  "bytesAt base bs m = (\<lambda>a. if a - base < of_nat (length bs) then bs ! unat (a - base) else m a)"

definition zeroMemory :: memory where
  "zeroMemory = (\<lambda>a. 0)"

text \<open>
  Mapping primitives that never fail; the keys of the reservation map are visited in
  the reverse of their insertion order.
\<close>

definition okPlatform :: "memory \<Rightarrow> platform" where
  "okPlatform m = \<lparr> mapFn = (\<lambda>tr p. None), unmapFn = (\<lambda>tr p. None), memory = m,
     rangeOrder = rev \<rparr>"

text \<open>
  An XSDT of length 52 at 0x1000 that lists the tables at 0x2000 and 0x3000; the table at
  0x2000 (APIC, length 36) has a wrong checksum, the one at 0x3000 (FACP, length 36) a
  right one.
\<close>

definition tablesExample :: memory where
  "tablesExample =
     bytesAt 0x1000
       [0x58, 0x53, 0x44, 0x54, 52, 0, 0, 0, 1, 56, 0, 0, 0, 0, 0, 0, 0, 0, 0, 0, 0, 0, 0, 0,
        0, 0, 0, 0, 0, 0, 0, 0, 0, 0, 0, 0,
        0, 0x20, 0, 0, 0, 0, 0, 0, 0, 0x30, 0, 0, 0, 0, 0, 0]
    (bytesAt 0x2000 [0x41, 0x50, 0x49, 0x43, 36, 0, 0, 0, 1, 0]
    (bytesAt 0x3000 [0x46, 0x41, 0x43, 0x50, 36, 0, 0, 0, 1, 193] zeroMemory))"

definition exampleDriver :: acpiDriver where
  "exampleDriver = \<lparr> mappedPages = [], rsdtAddr = 0x1000, useXSDT = True \<rparr>"

text \<open>The driver and the trace once the root table at 0x1000 is mapped.\<close>

definition rootMapped :: "acpiDriver \<times> event list" where
  "rootMapped = (exampleDriver\<lparr>mappedPages := [1, 2]\<rparr>, [MapPage 1 None, MapPage 2 None])"

text \<open>Mapping primitives whose \<^verbatim>\<open>mapFn\<close> fails on every call.\<close>

definition failingPlatform :: "memory \<Rightarrow> platform" where
  "failingPlatform m = \<lparr> mapFn = (\<lambda>tr p. Some (ErrOther ''map failed'')),
     unmapFn = (\<lambda>tr p. None), memory = m, rangeOrder = rev \<rparr>"

text \<open>
  The driver and the trace once the corrupt table at 0x2000 has been tried after the
  root table, and a driver whose root table is the corrupt table.
\<close>

definition corruptMapped :: "acpiDriver \<times> event list" where
  "corruptMapped = (exampleDriver\<lparr>mappedPages := [1, 2, 3]\<rparr>,
     [MapPage 1 None, MapPage 2 None, MapPage 3 None])"

definition corruptRootDriver :: acpiDriver where
  "corruptRootDriver = \<lparr> mappedPages = [], rsdtAddr = 0x2000, useXSDT = True \<rparr>"


definition rsdpV1Example :: memory where
  "rsdpV1Example =
     bytesAt 0xe0000
       [0x52, 0x53, 0x44, 0x20, 0x50, 0x54, 0x52, 0x20, 209, 0, 0, 0, 0, 0, 0, 0,
        0, 0x10, 0, 0]
       zeroMemory"


text \<open>Mapping primitives whose \<^verbatim>\<open>unmapFn\<close> fails for page 2.\<close>

definition unmapFailingPlatform :: "memory \<Rightarrow> platform" where
  "unmapFailingPlatform m = \<lparr> mapFn = (\<lambda>tr p. None),
     unmapFn = (\<lambda>tr p. if p = 2 then Some (ErrOther ''unmap failed'') else None),
     memory = m, rangeOrder = rev \<rparr>"

section \<open>Properties\<close>

subsection \<open>The checksum validator\<close>

lemma word_less_Suc: "(i::'a::len word) < n \<Longrightarrow> unat (i + 1) = Suc (unat i)"
proof -
  assume "i < n"
  then have a: "unat i < unat n" by (simp add: word_less_nat_alt)
  have b: "unat n < 2 ^ LENGTH('a)" by (rule unsigned_less)
  from a b have "unat i + unat (1::'a word) < 2 ^ LENGTH('a)" unfolding unsigned_1 by linarith
  then have "unat (i + 1) = unat i + unat (1::'a word)" by (simp only: unat_add_lem)
  then show ?thesis by simp
qed

lemma validTable_loop_sum:
  "validTable_loop m p n i s = s + (\<Sum>k = unat i..<unat n. m (p + of_nat k))"
proof (induction m p n i s rule: validTable_loop.induct)
  case (1 m p n i s)
  show ?case
  proof (cases "i < n")
    case True
    then have lt: "unat i < unat n" by (simp add: word_less_nat_alt)
    have uc: "(ucast i :: uintptr) = of_nat (unat i)" by simp
    from True 1 have "validTable_loop m p n i s
        = s + m (p + ucast i) + (\<Sum>k = Suc (unat i)..<unat n. m (p + of_nat k))"
      by (subst validTable_loop.simps) (simp add: word_less_Suc [OF True])
    also have "\<dots> = s + (\<Sum>k = unat i..<unat n. m (p + of_nat k))"
      using lt by (simp add: sum.atLeast_Suc_lessThan add.assoc uc del: of_nat_unat)
    finally show ?thesis .
  next
    case False
    then have "unat n \<le> unat i" by (simp add: word_less_nat_alt)
    with False show ?thesis by (subst validTable_loop.simps) simp
  qed
qed

lemma validTable_sum: "validTable m p n \<longleftrightarrow> (\<Sum>k<unat n. m (p + of_nat k)) = 0"
  by (simp add: validTable_def validTable_loop_sum atLeast0LessThan)

lemma unat_sum_u8: "unat (\<Sum>k\<in>A. (f k :: u8)) = (\<Sum>k\<in>A. unat (f k)) mod 256"
proof -
  have "(\<Sum>k\<in>A. f k) = of_nat (\<Sum>k\<in>A. unat (f k))" by simp
  then show ?thesis by (simp only: unat_of_nat) simp
qed

lemma validTable_iff: "validTable m p n \<longleftrightarrow> (\<Sum>k<unat n. unat (m (p + of_nat k))) mod 256 = 0"
proof -
  have "(\<Sum>k<unat n. m (p + of_nat k)) = 0 \<longleftrightarrow> unat (\<Sum>k<unat n. m (p + of_nat k)) = 0"
    by (simp add: unat_eq_0)
  then show ?thesis by (simp only: validTable_sum unat_sum_u8)
qed

lemma table_addr_inj:
  fixes p :: uintptr and n :: u32
  assumes "j < unat n" "k < unat n" "p + of_nat j = p + of_nat k"
  shows "j = k"
proof -
  have "unat n < 2 ^ LENGTH(32)" by (rule unsigned_less)
  with assms have j: "j < 2 ^ LENGTH(64)" and k: "k < 2 ^ LENGTH(64)" by simp_all
  from assms have "(of_nat j :: uintptr) = of_nat k" by simp
  then have "unat (of_nat j :: uintptr) = unat (of_nat k :: uintptr)" by simp
  with j k show ?thesis by (simp add: unat_of_nat)
qed

lemma validTable_byte_change:
  assumes ok: "validTable m p n" and k: "k < unat n" and v: "v \<noteq> m (p + of_nat k)"
  shows "\<not> validTable (m(p + of_nat k := v)) p n"
proof
  let ?A = "{..<unat n} - {k}"
  assume ok': "validTable (m(p + of_nat k := v)) p n"
  have same: "(\<Sum>j\<in>?A. (m(p + of_nat k := v)) (p + of_nat j)) = (\<Sum>j\<in>?A. m (p + of_nat j))"
  proof (rule sum.cong)
    fix j assume "j \<in> ?A"
    then have "j < unat n" "j \<noteq> k" by simp_all
    with k have "p + of_nat j \<noteq> p + of_nat k" using table_addr_inj by blast
    then show "(m(p + of_nat k := v)) (p + of_nat j) = m (p + of_nat j)" by simp
  qed simp
  from k have mem: "k \<in> {..<unat n}" by simp
  have "(\<Sum>j<unat n. m (p + of_nat j)) = m (p + of_nat k) + (\<Sum>j\<in>?A. m (p + of_nat j))"
    by (rule sum.remove [OF _ mem]) simp
  with ok have e1: "m (p + of_nat k) + (\<Sum>j\<in>?A. m (p + of_nat j)) = 0"
    by (simp add: validTable_sum)
  have "(\<Sum>j<unat n. (m(p + of_nat k := v)) (p + of_nat j))
          = (m(p + of_nat k := v)) (p + of_nat k) + (\<Sum>j\<in>?A. (m(p + of_nat k := v)) (p + of_nat j))"
    by (rule sum.remove [OF _ mem]) simp
  with ok' same have e2: "v + (\<Sum>j\<in>?A. m (p + of_nat j)) = 0"
    by (simp add: validTable_sum)
  from e1 e2 have "v = m (p + of_nat k)" by (metis add_right_cancel)
  with v show False by simp
qed

text \<open>
  C7. \<^verbatim>\<open>validTable\<close> is a function from the memory, the address and the length to a
  truth value, so it changes nothing and signals no error. It returns true exactly when
  the bytes at \<^verbatim>\<open>tablePtr\<close>, ..., \<^verbatim>\<open>tablePtr + tableLength - 1\<close> add up to 0 modulo
  256; and when it returns true, giving any one of these bytes a different value makes
  it return false.
\<close>

theorem validTable_checksum:
  "(validTable m tablePtr tableLength \<longleftrightarrow>
      (\<Sum>k<unat tableLength. unat (m (tablePtr + of_nat k))) mod 256 = 0) \<and>
   (validTable m tablePtr tableLength \<longrightarrow>
      (\<forall>k<unat tableLength. \<forall>v. v \<noteq> m (tablePtr + of_nat k) \<longrightarrow>
         \<not> validTable (m(tablePtr + of_nat k := v)) tablePtr tableLength))"
proof (intro conjI impI allI)
  show "validTable m tablePtr tableLength \<longleftrightarrow>
      (\<Sum>k<unat tableLength. unat (m (tablePtr + of_nat k))) mod 256 = 0"
    by (rule validTable_iff)
next
  fix k v
  assume "validTable m tablePtr tableLength" "k < unat tableLength" "v \<noteq> m (tablePtr + of_nat k)"
  then show "\<not> validTable (m(tablePtr + of_nat k := v)) tablePtr tableLength"
    by (rule validTable_byte_change)
qed

theorem validTable_checksum_witness:
  "validTable checksumExample 0x1000 2 \<and>
   (\<Sum>k<unat (2::u32). unat (checksumExample (0x1000 + of_nat k))) mod 256 = 0 \<and>
   \<not> validTable (checksumExample(0x1000 + of_nat 1 := 7)) 0x1000 2"
proof -
  have ok: "validTable checksumExample 0x1000 2"
    by code_simp
  have k: "(1::nat) < unat (2::u32)" by simp
  have v: "(7::u8) \<noteq> checksumExample (0x1000 + of_nat 1)"
    by (simp add: checksumExample_def)
  have c3: "\<not> validTable (checksumExample(0x1000 + of_nat 1 := 7)) 0x1000 2"
    by (rule validTable_checksum [THEN conjunct2, rule_format, OF ok k v])
  have c2: "(\<Sum>k<unat (2::u32). unat (checksumExample (0x1000 + of_nat k))) mod 256 = 0"
    using validTable_checksum [THEN conjunct1, THEN iffD1, OF ok] .
  from ok c2 c3 show ?thesis by (intro conjI)
qed

subsection \<open>The trace of the mapping functions\<close>

lemma mappedOk_append [simp]: "mappedOk (xs @ ys) = mappedOk xs @ mappedOk ys"
  by (induction xs rule: mappedOk.induct) auto

lemma mapCalls_append [simp]: "mapCalls (xs @ ys) = mapCalls xs @ mapCalls ys"
  by (induction xs rule: mapCalls.induct) auto

lemma unmapCalls_append [simp]: "unmapCalls (xs @ ys) = unmapCalls xs @ unmapCalls ys"
  by (induction xs rule: unmapCalls.induct) auto

lemma mappedOk_subset: "set (mappedOk es) \<subseteq> set (mapCalls es)"
  by (induction es rule: mappedOk.induct) auto

lemma reservedSinceI:
  assumes "tr' = tr @ ms" "list_all isMapEvent ms" "mp' = mp @ mappedOk ms"
    "distinct (mappedOk ms)" "set (mapCalls ms) \<inter> set mp = {}"
  shows "reservedSince (mp, tr) (mp', tr')"
  using assms by (auto simp: reservedSince_def list_all_iff)

lemma reservedSinceE:
  assumes "reservedSince (mp, tr) (mp', tr')"
  obtains ms where "tr' = tr @ ms" "list_all isMapEvent ms" "mp' = mp @ mappedOk ms"
    "distinct (mappedOk ms)" "set (mapCalls ms) \<inter> set mp = {}"
proof -
  let ?ms = "drop (length tr) tr'"
  from assms have "take (length tr) tr' = tr" by (simp add: reservedSince_def)
  then have "tr' = tr @ ?ms" by (metis append_take_drop_id)
  moreover from assms have "list_all isMapEvent ?ms" "mp' = mp @ mappedOk ?ms"
    "distinct (mappedOk ?ms)" "set (mapCalls ?ms) \<inter> set mp = {}"
    by (auto simp: reservedSince_def Let_def list_all_iff)
  ultimately show ?thesis using that by blast
qed

lemma reservedSince_refl: "reservedSince s s"
  by (cases s) (simp add: reservedSince_def)

lemma reservedSince_trans:
  assumes "reservedSince s1 s2" "reservedSince s2 s3"
  shows "reservedSince s1 s3"
proof -
  obtain mp1 tr1 mp2 tr2 mp3 tr3 where s: "s1 = (mp1, tr1)" "s2 = (mp2, tr2)" "s3 = (mp3, tr3)"
    by (cases s1, cases s2, cases s3) auto
  from assms(1) [unfolded s] obtain ms where a: "tr2 = tr1 @ ms" "list_all isMapEvent ms"
    "mp2 = mp1 @ mappedOk ms" "distinct (mappedOk ms)" "set (mapCalls ms) \<inter> set mp1 = {}"
    by (rule reservedSinceE)
  from assms(2) [unfolded s] obtain ns where b: "tr3 = tr2 @ ns" "list_all isMapEvent ns"
    "mp3 = mp2 @ mappedOk ns" "distinct (mappedOk ns)" "set (mapCalls ns) \<inter> set mp2 = {}"
    by (rule reservedSinceE)
  have sub: "set (mappedOk ns) \<subseteq> set (mapCalls ns)" by (rule mappedOk_subset)
  show ?thesis unfolding s
  proof (rule reservedSinceI [where ms = "ms @ ns"])
    show "tr3 = tr1 @ ms @ ns" using a b by simp
    show "list_all isMapEvent (ms @ ns)" using a b by simp
    show "mp3 = mp1 @ mappedOk (ms @ ns)" using a b by simp
    show "distinct (mappedOk (ms @ ns))" using a b sub by auto
    show "set (mapCalls (ms @ ns)) \<inter> set mp1 = {}" using a b by auto
  qed
qed

lemma mapRegion_loop_reservedSince:
  "mapRegion_loop hw e c s = (err, s') \<Longrightarrow> reservedSince s s'"
proof (induction hw e c s rule: mapRegion_loop.induct)
  case (1 hw e c mp tr)
  show ?case
  proof (cases "c \<le> PageFromAddress e")
    case False
    with "1.prems" show ?thesis
      by (subst (asm) mapRegion_loop.simps) (simp add: reservedSince_refl)
  next
    case le: True
    show ?thesis
    proof (cases "c \<in> set mp")
      case True
      with le "1.prems" have "mapRegion_loop hw e (c + 1) (mp, tr) = (err, s')"
        by (subst (asm) mapRegion_loop.simps) simp
      with le True show ?thesis by (rule "1.IH"(1))
    next
      case False
      show ?thesis
      proof (cases "mapFn hw tr c")
        case (Some x)
        with le False "1.prems" have "s' = (mp, tr @ [MapPage c (Some x)])"
          by (subst (asm) mapRegion_loop.simps) auto
        with False show ?thesis by (auto intro!: reservedSinceI [where ms = "[MapPage c (Some x)]"])
      next
        case None
        with le False "1.prems"
        have "mapRegion_loop hw e (c + 1) (mp @ [c], tr @ [MapPage c None]) = (err, s')"
          by (subst (asm) mapRegion_loop.simps) simp
        with le False None have "reservedSince (mp @ [c], tr @ [MapPage c None]) s'"
          by (rule "1.IH"(2))
        moreover from False have "reservedSince (mp, tr) (mp @ [c], tr @ [MapPage c None])"
          by (intro reservedSinceI [where ms = "[MapPage c None]"]) auto
        ultimately show ?thesis using reservedSince_trans by blast
      qed
    qed
  qed
qed

lemma page_succ:
  assumes "c \<le> PageFromAddress e"
  shows "unat (c + 1) = Suc (unat c)"
proof -
  from assms have a: "unat c \<le> unat (PageFromAddress e)" by (simp add: word_le_nat_alt)
  have "unat (e AND NOT (PageSize - 1)) < 2 ^ LENGTH(64)" by (rule unsigned_less)
  then have "unat (PageFromAddress e) < 2 ^ 52"
    by (simp add: PageFromAddress_def PageShift_def drop_bit_eq_div unat_div
        less_mult_imp_div_less)
  with a have "unat c + unat (1::u64) < 2 ^ LENGTH(64)" unfolding unsigned_1 by simp
  then have "unat (c + 1) = unat c + unat (1::u64)" by (simp only: unat_add_lem)
  then show ?thesis by simp
qed

lemma reservedSince_subset: "reservedSince (mp, tr) (mp', tr') \<Longrightarrow> set mp \<subseteq> set mp'"
  by (erule reservedSinceE) auto

lemma mapRegion_loop_covers:
  "mapRegion_loop hw e c s = (None, s') \<Longrightarrow> c \<le> p \<Longrightarrow> p \<le> PageFromAddress e
     \<Longrightarrow> p \<in> set (fst s')"
proof (induction hw e c s rule: mapRegion_loop.induct)
  case (1 hw e c mp tr)
  from "1.prems" have le: "c \<le> PageFromAddress e" by simp
  obtain mp' tr' where s': "s' = (mp', tr')" by (cases s')
  have next_le: "c + 1 \<le> p" if "p \<noteq> c"
  proof -
    from that "1.prems"(2) have "c < p" by simp
    then have "unat c < unat p" by (simp add: word_less_nat_alt)
    then show ?thesis by (simp add: word_le_nat_alt page_succ [OF le])
  qed
  show ?case
  proof (cases "c \<in> set mp")
    case True
    with le "1.prems" have run: "mapRegion_loop hw e (c + 1) (mp, tr) = (None, s')"
      by (subst (asm) mapRegion_loop.simps) simp
    show ?thesis
    proof (cases "p = c")
      case True
      from run have "reservedSince (mp, tr) (mp', tr')"
        unfolding s' by (rule mapRegion_loop_reservedSince)
      then have "set mp \<subseteq> set mp'" by (rule reservedSince_subset)
      with \<open>c \<in> set mp\<close> True show ?thesis using s' by auto
    next
      case False
      from le \<open>c \<in> set mp\<close> run next_le [OF False] "1.prems"(3) show ?thesis
        by (rule "1.IH"(1))
    qed
  next
    case False
    show ?thesis
    proof (cases "mapFn hw tr c")
      case (Some x)
      with le False "1.prems"(1) show ?thesis
        by (subst (asm) mapRegion_loop.simps) simp
    next
      case None
      with le False "1.prems"(1)
      have run: "mapRegion_loop hw e (c + 1) (mp @ [c], tr @ [MapPage c None]) = (None, s')"
        by (subst (asm) mapRegion_loop.simps) simp
      show ?thesis
      proof (cases "p = c")
        case True
        from run have "reservedSince (mp @ [c], tr @ [MapPage c None]) (mp', tr')"
          unfolding s' by (rule mapRegion_loop_reservedSince)
        then have "set (mp @ [c]) \<subseteq> set mp'" by (rule reservedSince_subset)
        with True show ?thesis using s' by auto
      next
        case neq: False
        from le False None run next_le [OF neq] "1.prems"(3) show ?thesis
          by (rule "1.IH"(2))
      qed
    qed
  qed
qed


lemma mapRegion_reservedSince:
  assumes "mapRegion hw a sz (drv, tr) = (err, drv', tr')"
  shows "reservedSince (mappedPages drv, tr) (mappedPages drv', tr')"
    and "rsdtAddr drv' = rsdtAddr drv" and "useXSDT drv' = useXSDT drv"
  using assms mapRegion_loop_reservedSince
  by (auto simp: Let_def split: prod.splits)


lemma mapACPITable_reservedSince:
  assumes "mapACPITable hw a (drv, tr) = (r, drv', tr')"
  shows "reservedSince (mappedPages drv, tr) (mappedPages drv', tr')
         \<and> rsdtAddr drv' = rsdtAddr drv \<and> useXSDT drv' = useXSDT drv"
proof -
  obtain e1 d1 t1 where m1: "mapRegion hw a sizeofHeader (drv, tr) = (e1, d1, t1)"
    by (rule prod_cases3)
  note r1 = mapRegion_reservedSince [OF m1]
  show ?thesis
  proof (cases e1)
    case (Some err)
    with assms m1 have "drv' = d1" "tr' = t1" by (simp_all del: mapRegion.simps)
    with r1 show ?thesis by simp
  next
    case None
    let ?h = "readHeader (memory hw) a"
    obtain e2 d2 t2 where m2: "mapRegion hw a (ucast (length' ?h)) (d1, t1) = (e2, d2, t2)"
      by (rule prod_cases3)
    note r2 = mapRegion_reservedSince [OF m2]
    from assms m1 None m2 have "drv' = d2" "tr' = t2"
      by (simp_all del: mapRegion.simps add: Let_def split: option.splits if_splits)
    with r1 r2 show ?thesis using reservedSince_trans by auto
  qed
qed












subsection \<open>The address list of the root table\<close>

lemma length_readAddresses64 [simp]: "length (readAddresses64 m p n) = n"
  by (induction n arbitrary: p) auto

lemma length_readAddresses32 [simp]: "length (readAddresses32 m p n) = n"
  by (induction n arbitrary: p) auto

lemma nth_readAddresses64:
  "i < n \<Longrightarrow> readAddresses64 m p n ! i = read64 m (p + 8 * of_nat i)"
proof (induction n arbitrary: p i)
  case 0
  then show ?case by simp
next
  case (Suc n)
  show ?case
  proof (cases i)
    case 0
    then show ?thesis by simp
  next
    case (Suc j)
    with Suc.prems have "j < n" by simp
    then have "readAddresses64 m (p + 8) n ! j = read64 m (p + 8 + 8 * of_nat j)" by (rule Suc.IH)
    with Suc show ?thesis by (simp add: algebra_simps)
  qed
qed

lemma nth_readAddresses32:
  "i < n \<Longrightarrow> readAddresses32 m p n ! i = ucast (read32 m (p + 4 * of_nat i))"
proof (induction n arbitrary: p i)
  case 0
  then show ?case by simp
next
  case (Suc n)
  show ?case
  proof (cases i)
    case 0
    then show ?thesis by simp
  next
    case (Suc j)
    with Suc.prems have "j < n" by simp
    then have "readAddresses32 m (p + 4) n ! j = ucast (read32 m (p + 4 + 4 * of_nat j))"
      by (rule Suc.IH)
    with Suc show ?thesis by (simp add: algebra_simps)
  qed
qed

lemma sdtAddresses_cong:
  "rsdtAddr d' = rsdtAddr d \<Longrightarrow> useXSDT d' = useXSDT d
     \<Longrightarrow> sdtAddresses m d' h = sdtAddresses m d h"
  by (simp add: sdtAddresses_def Let_def)

lemma length_sdtAddresses:
  "length (sdtAddresses m drv h)
     = unat (length' h - 36) div (if useXSDT drv then 8 else 4)"
  by (simp add: sdtAddresses_def Let_def sizeofHeader_def drop_bit_eq_div unat_div)

lemma nth_sdtAddresses:
  "i < length (sdtAddresses m drv h) \<Longrightarrow>
     sdtAddresses m drv h ! i =
       (if useXSDT drv then read64 m (rsdtAddr drv + 36 + 8 * of_nat i)
        else ucast (read32 m (rsdtAddr drv + 36 + 4 * of_nat i)))"
  by (auto simp: sdtAddresses_def Let_def sizeofHeader_def nth_readAddresses64
      nth_readAddresses32 split: if_splits)

lemma parseRSDT_root_ok:
  assumes "mapACPITable hw (rsdtAddr drv) (drv, tr) = (Inr header, drv', tr')"
  shows "parseRSDT hw (drv, tr, w)
           = parseRSDT_tables hw (sdtAddresses (memory hw) drv header) (drv', tr', w)"
proof -
  from mapACPITable_reservedSince [OF assms]
  have "sdtAddresses (memory hw) drv' header = sdtAddresses (memory hw) drv header"
    by (intro sdtAddresses_cong) simp_all
  with assms show ?thesis by (simp del: mapACPITable.simps)
qed

text \<open>
  C6. Once the root table is mapped, \<^verbatim>\<open>parseRSDT\<close> walks the address list
  \<^verbatim>\<open>sdtAddresses\<close>. With \<^verbatim>\<open>L\<close> the length field of the root header, the list has
  \<^verbatim>\<open>(L - 36) / 8\<close> entries when \<^verbatim>\<open>useXSDT\<close> is set and \<^verbatim>\<open>(L - 36) / 4\<close> otherwise, the
  subtraction being that of \<^verbatim>\<open>uint32\<close> (the plain difference when \<^verbatim>\<open>L\<close> is at least 36);
  entry \<^verbatim>\<open>i\<close> is the 64-bit (32-bit) little-endian value at \<^verbatim>\<open>rsdtAddr + 36 + 8 * i\<close>
  (\<^verbatim>\<open>+ 4 * i\<close>), so the entries are read one after the other from the end of the header
  on. With \<^verbatim>\<open>L = 36 + 16\<close> and \<^verbatim>\<open>useXSDT\<close> there are exactly 2 entries.
\<close>

theorem parseRSDT_entry_count:
  assumes "mapACPITable hw (rsdtAddr drv) (drv, tr) = (Inr header, drv', tr')"
  shows "parseRSDT hw (drv, tr, w)
           = parseRSDT_tables hw (sdtAddresses (memory hw) drv header) (drv', tr', w)
     \<and> length (sdtAddresses (memory hw) drv header)
           = unat (length' header - 36) div (if useXSDT drv then 8 else 4)
     \<and> (36 \<le> unat (length' header) \<longrightarrow>
          length (sdtAddresses (memory hw) drv header)
            = (unat (length' header) - 36) div (if useXSDT drv then 8 else 4))
     \<and> (\<forall>i < length (sdtAddresses (memory hw) drv header).
          sdtAddresses (memory hw) drv header ! i =
            (if useXSDT drv then read64 (memory hw) (rsdtAddr drv + 36 + 8 * of_nat i)
             else ucast (read32 (memory hw) (rsdtAddr drv + 36 + 4 * of_nat i))))
     \<and> (useXSDT drv \<and> length' header = 36 + 16 \<longrightarrow>
          length (sdtAddresses (memory hw) drv header) = 2)"
proof (intro conjI impI allI)
  show "parseRSDT hw (drv, tr, w)
          = parseRSDT_tables hw (sdtAddresses (memory hw) drv header) (drv', tr', w)"
    using assms by (rule parseRSDT_root_ok)
  show "length (sdtAddresses (memory hw) drv header)
          = unat (length' header - 36) div (if useXSDT drv then 8 else 4)"
    by (rule length_sdtAddresses)
  show "length (sdtAddresses (memory hw) drv header)
          = (unat (length' header) - 36) div (if useXSDT drv then 8 else 4)"
    if "36 \<le> unat (length' header)"
  proof -
    from that have "unat (length' header - 36) = unat (length' header) - 36"
      by (simp add: unat_sub_if_size)
    then show ?thesis by (simp only: length_sdtAddresses)
  qed
  show "sdtAddresses (memory hw) drv header ! i =
          (if useXSDT drv then read64 (memory hw) (rsdtAddr drv + 36 + 8 * of_nat i)
           else ucast (read32 (memory hw) (rsdtAddr drv + 36 + 4 * of_nat i)))"
    if "i < length (sdtAddresses (memory hw) drv header)" for i
    using that by (rule nth_sdtAddresses)
  show "length (sdtAddresses (memory hw) drv header) = 2"
    if "useXSDT drv \<and> length' header = 36 + 16"
    using that by (simp add: length_sdtAddresses)
qed

theorem parseRSDT_entry_count_witness:
  "mapACPITable (okPlatform tablesExample) (rsdtAddr exampleDriver) (exampleDriver, [])
     = (Inr (readHeader tablesExample 0x1000), fst rootMapped, snd rootMapped)
   \<and> useXSDT exampleDriver \<and> length' (readHeader tablesExample 0x1000) = 36 + 16
   \<and> length (sdtAddresses (memory (okPlatform tablesExample)) exampleDriver
        (readHeader tablesExample 0x1000)) = 2"
proof -
  have m: "mapACPITable (okPlatform tablesExample) (rsdtAddr exampleDriver) (exampleDriver, [])
     = (Inr (readHeader tablesExample 0x1000), fst rootMapped, snd rootMapped)"
    by code_simp
  have x: "useXSDT exampleDriver \<and> length' (readHeader tablesExample 0x1000) = 36 + 16"
    by code_simp
  from parseRSDT_entry_count [OF m, of "[]"] x
  have "length (sdtAddresses (memory (okPlatform tablesExample)) exampleDriver
        (readHeader tablesExample 0x1000)) = 2" by blast
  with m x show ?thesis by blast
qed

text \<open>
  C8. \<^verbatim>\<open>payloadLen\<close> is \<^verbatim>\<open>header.length - uint32(sizeofHeader)\<close> with no test of
  \<^verbatim>\<open>header.length\<close> against 36. For a mapped root table whose length field is below 36
  the difference wraps to \<^verbatim>\<open>L + 2^32 - 36\<close>, the address list has that many bytes
  divided by 8 (by 4 without \<^verbatim>\<open>useXSDT\<close>) entries, and \<^verbatim>\<open>parseRSDT\<close> goes on to walk
  them: the table is not rejected.
\<close>

theorem parseRSDT_short_length:
  assumes "mapACPITable hw (rsdtAddr drv) (drv, tr) = (Inr header, drv', tr')"
    and "unat (length' header) < 36"
  shows "unat (length' header - ucast sizeofHeader) = unat (length' header) + 2 ^ 32 - 36
     \<and> length (sdtAddresses (memory hw) drv header)
           = (unat (length' header) + 2 ^ 32 - 36) div (if useXSDT drv then 8 else 4)
     \<and> parseRSDT hw (drv, tr, w)
           = parseRSDT_tables hw (sdtAddresses (memory hw) drv header) (drv', tr', w)"
proof -
  from assms(2) have a: "unat (length' header - 36) = unat (length' header) + 2 ^ 32 - 36"
    by (simp add: unat_sub_if_size word_size)
  then have "unat (length' header - ucast sizeofHeader) = unat (length' header) + 2 ^ 32 - 36"
    by (simp add: sizeofHeader_def)
  moreover have "length (sdtAddresses (memory hw) drv header)
           = (unat (length' header) + 2 ^ 32 - 36) div (if useXSDT drv then 8 else 4)"
    by (simp only: length_sdtAddresses a)
  moreover note parseRSDT_root_ok [OF assms(1)]
  ultimately show ?thesis by blast
qed

theorem parseRSDT_short_length_witness:
  "mapACPITable (okPlatform zeroMemory) (rsdtAddr exampleDriver) (exampleDriver, [])
     = (Inr (readHeader zeroMemory 0x1000), fst rootMapped, snd rootMapped)
   \<and> unat (length' (readHeader zeroMemory 0x1000)) = 0
   \<and> length (sdtAddresses (memory (okPlatform zeroMemory)) exampleDriver
        (readHeader zeroMemory 0x1000)) = 536870907"
proof -
  have m: "mapACPITable (okPlatform zeroMemory) (rsdtAddr exampleDriver) (exampleDriver, [])
     = (Inr (readHeader zeroMemory 0x1000), fst rootMapped, snd rootMapped)"
    by code_simp
  have l: "unat (length' (readHeader zeroMemory 0x1000)) = 0"
    by code_simp
  then have lt: "unat (length' (readHeader zeroMemory 0x1000)) < 36" by simp
  have x: "useXSDT exampleDriver" by code_simp
  from parseRSDT_short_length [OF m lt, of "[]"]
  have "length (sdtAddresses (memory (okPlatform zeroMemory)) exampleDriver
          (readHeader zeroMemory 0x1000))
        = (unat (length' (readHeader zeroMemory 0x1000)) + 2 ^ 32 - 36)
            div (if useXSDT exampleDriver then 8 else 4)" by blast
  also have "\<dots> = 536870907" by (simp only: l x) simp
  finally show ?thesis using m l by blast
qed

subsection \<open>Errors during the walk\<close>

lemma parseRSDT_tables_no_mismatch:
  "parseRSDT_tables hw addrs (drv, tr, w) = (Some e, drv', tr', w')
     \<Longrightarrow> e \<noteq> ErrTableChecksumMismatch"
proof (induction addrs arbitrary: drv tr w)
  case Nil
  then show ?case by simp
next
  case (Cons addr rest)
  obtain r d1 t1 where m: "mapACPITable hw addr (drv, tr) = (r, d1, t1)"
    by (rule prod_cases3)
  show ?case
  proof (cases r)
    case (Inl x)
    show ?thesis
    proof (cases "x = ErrTableChecksumMismatch")
      case True
      with Cons.prems m Inl have "parseRSDT_tables hw rest (d1, t1, w) = (Some e, drv', tr', w')"
        by (simp del: mapACPITable.simps)
      then show ?thesis by (rule Cons.IH)
    next
      case False
      with Cons.prems m Inl have "e = x" by (simp del: mapACPITable.simps)
      with False show ?thesis by simp
    qed
  next
    case (Inr h)
    with Cons.prems m
    have "parseRSDT_tables hw rest (d1, t1, w @ [(signature h, addr, length' h)])
            = (Some e, drv', tr', w')"
      by (simp del: mapACPITable.simps)
    then show ?thesis by (rule Cons.IH)
  qed
qed

text \<open>
  C5. An error of \<^verbatim>\<open>mapACPITable\<close> on the root table, the checksum mismatch
  included, is returned by \<^verbatim>\<open>parseRSDT\<close> as it is, with nothing written. In the walk
  over the address list, a sub-table whose mapping ends in \<^verbatim>\<open>errTableChecksumMismatch\<close>
  is passed over: nothing is written for it and the walk goes on with the next address;
  any other error ends the walk and is returned as it is; a mapped sub-table is written
  and the walk goes on. So the walk never returns \<^verbatim>\<open>errTableChecksumMismatch\<close>.
\<close>

theorem parseRSDT_error_policy:
  "(mapACPITable hw (rsdtAddr drv) (drv, tr) = (Inl e, drv', tr') \<longrightarrow>
      parseRSDT hw (drv, tr, w) = (Some e, drv', tr', w)) \<and>
   (mapACPITable hw addr (drv, tr) = (Inl ErrTableChecksumMismatch, drv', tr') \<longrightarrow>
      parseRSDT_tables hw (addr # rest) (drv, tr, w)
        = parseRSDT_tables hw rest (drv', tr', w)) \<and>
   (mapACPITable hw addr (drv, tr) = (Inl e, drv', tr') \<and> e \<noteq> ErrTableChecksumMismatch \<longrightarrow>
      parseRSDT_tables hw (addr # rest) (drv, tr, w) = (Some e, drv', tr', w)) \<and>
   (mapACPITable hw addr (drv, tr) = (Inr header, drv', tr') \<longrightarrow>
      parseRSDT_tables hw (addr # rest) (drv, tr, w)
        = parseRSDT_tables hw rest
            (drv', tr', w @ [(signature header, addr, length' header)])) \<and>
   (parseRSDT_tables hw addrs (drv, tr, w) = (Some e, drv', tr', w') \<longrightarrow>
      e \<noteq> ErrTableChecksumMismatch)"
proof (intro conjI impI)
  show "parseRSDT hw (drv, tr, w) = (Some e, drv', tr', w)"
    if "mapACPITable hw (rsdtAddr drv) (drv, tr) = (Inl e, drv', tr')"
    using that by (simp del: mapACPITable.simps)
  show "parseRSDT_tables hw (addr # rest) (drv, tr, w) = parseRSDT_tables hw rest (drv', tr', w)"
    if "mapACPITable hw addr (drv, tr) = (Inl ErrTableChecksumMismatch, drv', tr')"
    using that by (simp del: mapACPITable.simps)
  show "parseRSDT_tables hw (addr # rest) (drv, tr, w) = (Some e, drv', tr', w)"
    if "mapACPITable hw addr (drv, tr) = (Inl e, drv', tr') \<and> e \<noteq> ErrTableChecksumMismatch"
    using that by (simp del: mapACPITable.simps)
  show "parseRSDT_tables hw (addr # rest) (drv, tr, w)
          = parseRSDT_tables hw rest (drv', tr', w @ [(signature header, addr, length' header)])"
    if "mapACPITable hw addr (drv, tr) = (Inr header, drv', tr')"
    using that by (simp del: mapACPITable.simps)
  show "e \<noteq> ErrTableChecksumMismatch"
    if "parseRSDT_tables hw addrs (drv, tr, w) = (Some e, drv', tr', w')"
    using that by (rule parseRSDT_tables_no_mismatch)
qed

theorem parseRSDT_error_policy_witness:
  "parseRSDT_tables (okPlatform tablesExample) [0x2000, 0x3000]
       (fst rootMapped, snd rootMapped, [])
     = parseRSDT_tables (okPlatform tablesExample) [0x3000]
         (fst corruptMapped, snd corruptMapped, [])
   \<and> parseRSDT (okPlatform tablesExample) (corruptRootDriver, [], [])
     = (Some ErrTableChecksumMismatch, corruptRootDriver\<lparr>mappedPages := [2, 3]\<rparr>,
        [MapPage 2 None, MapPage 3 None], [])
   \<and> parseRSDT_tables (failingPlatform tablesExample) [0x2000, 0x3000] (exampleDriver, [], [])
     = (Some (ErrOther ''map failed''), exampleDriver,
        [MapPage 2 (Some (ErrOther ''map failed''))], [])
   \<and> parseRSDT (okPlatform tablesExample) (exampleDriver, [], [])
     = (None, exampleDriver\<lparr>mappedPages := [1, 2, 3, 4]\<rparr>,
        [MapPage 1 None, MapPage 2 None, MapPage 3 None, MapPage 4 None],
        [([0x46, 0x41, 0x43, 0x50], 0x3000, 36)])"
proof -
  have skip: "mapACPITable (okPlatform tablesExample) 0x2000 (fst rootMapped, snd rootMapped)
      = (Inl ErrTableChecksumMismatch, fst corruptMapped, snd corruptMapped)"
    by code_simp
  have root: "mapACPITable (okPlatform tablesExample) (rsdtAddr corruptRootDriver)
        (corruptRootDriver, [])
      = (Inl ErrTableChecksumMismatch, corruptRootDriver\<lparr>mappedPages := [2, 3]\<rparr>,
         [MapPage 2 None, MapPage 3 None])"
    by code_simp
  have fatal: "mapACPITable (failingPlatform tablesExample) 0x2000 (exampleDriver, [])
      = (Inl (ErrOther ''map failed''), exampleDriver,
         [MapPage 2 (Some (ErrOther ''map failed''))])
      \<and> ErrOther ''map failed'' \<noteq> ErrTableChecksumMismatch"
    by code_simp
  note a = parseRSDT_error_policy [where hw = "okPlatform tablesExample" and addr = "0x2000"
      and drv = "fst rootMapped" and tr = "snd rootMapped" and drv' = "fst corruptMapped"
      and tr' = "snd corruptMapped" and w = "[]" and rest = "[0x3000]",
      THEN conjunct2, THEN conjunct1, rule_format, OF skip]
  note b = parseRSDT_error_policy [where hw = "okPlatform tablesExample"
      and drv = corruptRootDriver and tr = "[]" and w = "[]",
      THEN conjunct1, rule_format, OF root]
  note c = parseRSDT_error_policy [where hw = "failingPlatform tablesExample"
      and addr = "0x2000" and drv = exampleDriver and tr = "[]" and w = "[]"
      and rest = "[0x3000]",
      THEN conjunct2, THEN conjunct2, THEN conjunct1, rule_format, OF fatal]
  have d: "parseRSDT (okPlatform tablesExample) (exampleDriver, [], [])
     = (None, exampleDriver\<lparr>mappedPages := [1, 2, 3, 4]\<rparr>,
        [MapPage 1 None, MapPage 2 None, MapPage 3 None, MapPage 4 None],
        [([0x46, 0x41, 0x43, 0x50], 0x3000, 36)])"
    by code_simp
  from a b c d show ?thesis by (intro conjI)
qed

subsection \<open>Release of the mapped pages\<close>




text \<open>
  An error path: the root table has a wrong checksum and \<^verbatim>\<open>unmapFn\<close> fails for page 2.
  Both mapped pages are unmapped once and the reclamation call is not made.
\<close>

lemma DriverInit_error_path_example:
  "DriverInit (unmapFailingPlatform tablesExample) (corruptRootDriver, [], []) =
     (Some ErrTableChecksumMismatch, corruptRootDriver\<lparr>mappedPages := [2, 3]\<rparr>,
      [MapPage 2 None, MapPage 3 None,
       UnmapPage 3 None, UnmapPage 2 (Some (ErrOther ''unmap failed''))],
      [])"
  by code_simp

subsection \<open>Reserving a range\<close>

text \<open>
  The pages that \<^verbatim>\<open>mapRegion\<close> visits. The end address is rounded up to a page boundary
  and the loop runs up to the page of that address, the bound included. So a call for a
  range of at least one byte that does not wrap around and returns no error has the page
  after the last page of the range in the reservation map, while every byte of the
  range lies in a page up to the last one; the page of every byte of the range is in
  the reservation map as well.
\<close>

lemma PageSize_mask: "PageSize - 1 = (mask 12 :: u64)"
  by (simp add: PageSize_def PageShift_def mask_eq_exp_minus_1)

lemma drop_bit_page_aligned: "drop_bit 12 (x AND NOT (mask 12)) = drop_bit 12 (x :: u64)"
  by (rule bit_eqI) (auto simp: bit_simps dest: bit_imp_le_length)

lemma PageFromAddress_drop: "PageFromAddress x = drop_bit 12 x"
  by (simp only: PageFromAddress_def PageShift_def PageSize_mask drop_bit_page_aligned)

lemma PageFromAddress_aligned: "PageFromAddress (x AND NOT (PageSize - 1)) = drop_bit 12 x"
  by (simp only: PageFromAddress_drop PageSize_mask drop_bit_page_aligned)

lemma unat_PageFromAddress: "unat (PageFromAddress x) = unat x div 4096"
  by (simp add: PageFromAddress_drop drop_bit_eq_div unat_div)

lemma mapRegion_page_beyond:
  assumes run: "mapRegion hw a sz (drv, tr) = (None, drv', tr')"
    and pos: "0 < unat sz" and nowrap: "unat a + unat sz + 4095 < 2 ^ 64"
  shows "PageFromAddress (a + sz - 1) + 1 \<in> set (mappedPages drv')"
proof -
  let ?e = "(a + sz + (PageSize - 1)) AND NOT (PageSize - 1)"
  let ?c = "PageFromAddress (a AND NOT (PageSize - 1))"
  let ?p = "PageFromAddress (a + sz - 1) + 1"
  from run obtain mp' where loop: "mapRegion_loop hw ?e ?c (mappedPages drv, tr) = (None, mp', tr')"
    and drv': "drv' = drv\<lparr>mappedPages := mp'\<rparr>"
    by (auto simp: Let_def split: prod.splits)
  have ps: "PageSize - 1 = (4095 :: u64)" by (simp add: PageSize_def PageShift_def)
  from nowrap have s1: "unat (a + sz) = unat a + unat sz"
    by (simp add: unat_add_lem [THEN iffD1])
  from nowrap s1 have s2: "unat (a + sz + 4095) = unat a + unat sz + 4095"
    by (simp add: unat_add_lem [THEN iffD1])
  from pos s1 have s3: "unat (a + sz - 1) = unat a + unat sz - 1"
    by (simp add: unat_sub_if_size)
  have "unat (PageFromAddress ?e) = unat (a + sz + (PageSize - 1)) div 4096"
    by (simp only: PageFromAddress_aligned) (simp add: drop_bit_eq_div unat_div)
  then have ue: "unat (PageFromAddress ?e) = (unat a + unat sz + 4095) div 4096"
    by (simp only: ps s2)
  have uc: "unat ?c = unat a div 4096"
    by (simp only: PageFromAddress_aligned) (simp add: drop_bit_eq_div unat_div)
  have ul: "unat (PageFromAddress (a + sz - 1)) = (unat a + unat sz - 1) div 4096"
    by (simp add: unat_PageFromAddress s3)
  from nowrap have "(unat a + unat sz - 1) div 4096 + 1 < 2 ^ 64" by simp
  then have up: "unat ?p = (unat a + unat sz - 1) div 4096 + 1"
    using ul by (simp add: unat_add_lem [THEN iffD1])
  from pos have eq: "(unat a + unat sz + 4095) div 4096 = (unat a + unat sz - 1) div 4096 + 1"
    by (simp add: div_add_self2 [symmetric])
  have "?c \<le> ?p" using pos by (simp add: word_le_nat_alt uc up div_le_mono le_SucI)
  moreover have "?p \<le> PageFromAddress ?e" by (simp add: word_le_nat_alt ue up eq)
  ultimately have "?p \<in> set (fst (mp', tr'))" by (rule mapRegion_loop_covers [OF loop])
  with drv' show ?thesis by simp
qed

lemma range_pages_bound:
  assumes nowrap: "unat a + unat sz + 4095 < 2 ^ 64" and k: "k < unat sz"
  shows "PageFromAddress (a + of_nat k) \<le> PageFromAddress (a + sz - 1)"
proof -
  from k have pos: "0 < unat sz" by simp
  from nowrap k have "k < 2 ^ LENGTH(64)" by simp
  then have uk: "unat (of_nat k :: u64) = k" by (simp add: unat_of_nat)
  with nowrap k have s0: "unat (a + of_nat k) = unat a + k"
    by (simp add: unat_add_lem [THEN iffD1])
  from nowrap have s1: "unat (a + sz) = unat a + unat sz"
    by (simp add: unat_add_lem [THEN iffD1])
  from pos s1 have s3: "unat (a + sz - 1) = unat a + unat sz - 1"
    by (simp add: unat_sub_if_size)
  from k have "unat a + k \<le> unat a + unat sz - 1" by simp
  then have "(unat a + k) div 4096 \<le> (unat a + unat sz - 1) div 4096" by (rule div_le_mono)
  then show ?thesis by (simp add: word_le_nat_alt unat_PageFromAddress s0 s3)
qed


text \<open>
  C3. \<^verbatim>\<open>mapRegion(0x1000, 36)\<close>, the first call of \<^verbatim>\<open>mapACPITable(0x1000)\<close>, with an
  empty reservation map and a \<^verbatim>\<open>mapFn\<close> that succeeds: the bytes 0x1000 to 0x1023 lie in
  page 1, and the call maps and records the pages 1 and 2.
\<close>

theorem mapRegion_maps_page_beyond_range:
  "mapRegion (okPlatform zeroMemory) 0x1000 36 (exampleDriver, [])
     = (None, exampleDriver\<lparr>mappedPages := [1, 2]\<rparr>, [MapPage 1 None, MapPage 2 None])
   \<and> PageFromAddress 0x1000 = 1 \<and> PageFromAddress (0x1000 + 36 - 1) = 1"
  by code_simp




subsection \<open>The scan for the root pointer\<close>

lemma unat_candidate: "k \<le> 8192 \<Longrightarrow> unat (candidate k) = 917504 + 16 * k"
proof -
  assume k: "k \<le> 8192"
  have "candidate k = of_nat (917504 + 16 * k)"
    by (simp add: candidate_def rsdpLocationLow_def)
  moreover from k have "917504 + 16 * k < 2 ^ LENGTH(64)" by simp
  ultimately show ?thesis by (simp add: unat_of_nat del: of_nat_add of_nat_mult)
qed

lemma candidate_in_window: "k < 8192 \<Longrightarrow> candidate k < rsdpLocationHi"
  by (simp add: word_less_nat_alt unat_candidate rsdpLocationHi_def)

lemma candidate_past_window: "\<not> candidate 8192 < rsdpLocationHi"
  by (simp add: word_less_nat_alt unat_candidate rsdpLocationHi_def)

lemma candidate_Suc: "candidate (Suc k) = candidate k + 16"
  by (simp add: candidate_def algebra_simps)

lemma candidate_0: "candidate 0 = rsdpLocationLow"
  by (simp add: candidate_def)

lemma scan_rejected:
  "p < rsdpLocationHi \<Longrightarrow> \<not> candidateAccepted m p
     \<Longrightarrow> locateRSDT_scan m p = locateRSDT_scan m (p + 16)"
  by (subst locateRSDT_scan.simps) (auto simp: candidateAccepted_def)



lemma scan_skip:
  "k \<le> 8192 \<Longrightarrow> (\<And>j. j < k \<Longrightarrow> \<not> candidateAccepted m (candidate j))
     \<Longrightarrow> locateRSDT_scan m rsdpLocationLow = locateRSDT_scan m (candidate k)"
proof (induction k)
  case 0
  then show ?case by (simp add: candidate_0)
next
  case (Suc k)
  then have "locateRSDT_scan m rsdpLocationLow = locateRSDT_scan m (candidate k)" by simp
  also have "\<dots> = locateRSDT_scan m (candidate k + 16)"
    using Suc.prems by (intro scan_rejected candidate_in_window) simp_all
  finally show ?case by (simp add: candidate_Suc)
qed

lemma scan_past_window: "locateRSDT_scan m (candidate 8192) = Inl ErrMissingRSDP"
  using candidate_past_window by (subst locateRSDT_scan.simps) simp

lemma scan_missing:
  assumes "\<And>j. j < 8192 \<Longrightarrow> \<not> candidateAccepted m (candidate j)"
  shows "locateRSDT_scan m rsdpLocationLow = Inl ErrMissingRSDP"
  using scan_skip [of 8192 m] assms scan_past_window by simp

lemma locateRSDT_mapped:
  "fst (locateRSDT_map hw (PageFromAddress rsdpLocationLow) tr) = None
     \<Longrightarrow> fst (locateRSDT hw tr) = locateRSDT_scan (memory hw) rsdpLocationLow"
  by (cases "locateRSDT_map hw (PageFromAddress rsdpLocationLow) tr")
     (simp add: locateRSDT_def)

lemma locateRSDT_map_failed:
  "fst (locateRSDT_map hw (PageFromAddress rsdpLocationLow) tr) = Some e
     \<Longrightarrow> fst (locateRSDT hw tr) = Inl e"
  by (cases "locateRSDT_map hw (PageFromAddress rsdpLocationLow) tr")
     (simp add: locateRSDT_def)

lemma signatureMatches_first: "signatureMatches m p \<Longrightarrow> m p = 0x52"
proof -
  assume "signatureMatches m p"
  then have "readBytes m p 8 ! 0 = rsdtSignature ! 0" by (simp add: signatureMatches_def)
  then show ?thesis by (simp add: readBytes_def rsdtSignature_def)
qed

lemma zeroMemory_no_signature: "\<not> signatureMatches zeroMemory p"
  using signatureMatches_first [of zeroMemory p] by (auto simp: zeroMemory_def)









subsection \<open>probeForACPI\<close>

text \<open>
  C9, as the code has it. \<^verbatim>\<open>probeForACPI\<close> returns no driver exactly when \<^verbatim>\<open>locateRSDT\<close>
  returns an error, and otherwise the driver with the address and the flag that
  \<^verbatim>\<open>locateRSDT\<close> returned; it makes the calls of \<^verbatim>\<open>locateRSDT\<close> and no other. When
  every page of the scan window was mapped and no candidate has a matching signature,
  the error is \<^verbatim>\<open>errMissingRSDP\<close>; when \<^verbatim>\<open>mapFn\<close> fails on a page of the window, the
  error is the one of \<^verbatim>\<open>mapFn\<close>.
\<close>

theorem probeForACPI_result:
  "(fst (probeForACPI hw tr) = None \<longleftrightarrow> (\<exists>e. fst (locateRSDT hw tr) = Inl e)) \<and>
   (fst (locateRSDT hw tr) = Inr (a, x) \<longrightarrow>
      fst (probeForACPI hw tr) = Some \<lparr> mappedPages = [], rsdtAddr = a, useXSDT = x \<rparr>) \<and>
   (fst (locateRSDT_map hw (PageFromAddress rsdpLocationLow) tr) = None
      \<and> (\<forall>k<8192. \<not> signatureMatches (memory hw) (candidate k)) \<longrightarrow>
      fst (locateRSDT hw tr) = Inl ErrMissingRSDP \<and> fst (probeForACPI hw tr) = None) \<and>
   (fst (locateRSDT_map hw (PageFromAddress rsdpLocationLow) tr) = Some e \<longrightarrow>
      fst (locateRSDT hw tr) = Inl e \<and> fst (probeForACPI hw tr) = None) \<and>
   snd (probeForACPI hw tr) = snd (locateRSDT hw tr)"
proof -
  obtain r t where l: "locateRSDT hw tr = (r, t)" by (cases "locateRSDT hw tr")
  have p1: "fst (probeForACPI hw tr) = None \<longleftrightarrow> (\<exists>e. fst (locateRSDT hw tr) = Inl e)"
    using l by (cases r) (auto simp: probeForACPI_def)
  have p2: "fst (probeForACPI hw tr) = Some \<lparr> mappedPages = [], rsdtAddr = a, useXSDT = x \<rparr>"
    if "fst (locateRSDT hw tr) = Inr (a, x)"
    using l that by (simp add: probeForACPI_def)
  have p3: "fst (locateRSDT hw tr) = Inl ErrMissingRSDP \<and> fst (probeForACPI hw tr) = None"
    if "fst (locateRSDT_map hw (PageFromAddress rsdpLocationLow) tr) = None
      \<and> (\<forall>k<8192. \<not> signatureMatches (memory hw) (candidate k))"
  proof -
    from that have "locateRSDT_scan (memory hw) rsdpLocationLow = Inl ErrMissingRSDP"
      by (intro scan_missing) (simp add: candidateAccepted_def)
    with that have "fst (locateRSDT hw tr) = Inl ErrMissingRSDP"
      by (simp add: locateRSDT_mapped)
    with p1 show ?thesis by blast
  qed
  have p4: "fst (locateRSDT hw tr) = Inl e \<and> fst (probeForACPI hw tr) = None"
    if "fst (locateRSDT_map hw (PageFromAddress rsdpLocationLow) tr) = Some e"
    using locateRSDT_map_failed [OF that] p1 by blast
  have p5: "snd (probeForACPI hw tr) = snd (locateRSDT hw tr)"
    using l by (cases r) (auto simp: probeForACPI_def)
  from p1 p2 p3 p4 p5 show ?thesis by blast
qed

text \<open>
  C9 as stated fails where the scan window cannot be mapped: in a memory of zero bytes
  no candidate has a matching signature, and with a failing \<^verbatim>\<open>mapFn\<close> the error of
  \<^verbatim>\<open>locateRSDT\<close> is that of \<^verbatim>\<open>mapFn\<close>, not \<^verbatim>\<open>errMissingRSDP\<close>.
\<close>

theorem probeForACPI_map_failure_counterexample:
  "locateRSDT_scan zeroMemory rsdpLocationLow = Inl ErrMissingRSDP
   \<and> fst (locateRSDT (failingPlatform zeroMemory) []) = Inl (ErrOther ''map failed'')
   \<and> fst (locateRSDT (failingPlatform zeroMemory) []) \<noteq> Inl ErrMissingRSDP"
proof -
  have "locateRSDT_scan zeroMemory rsdpLocationLow = Inl ErrMissingRSDP"
    by (intro scan_missing) (simp add: candidateAccepted_def zeroMemory_no_signature)
  moreover have "fst (locateRSDT (failingPlatform zeroMemory) []) = Inl (ErrOther ''map failed'')"
    by code_simp
  ultimately show ?thesis by simp
qed

theorem probeForACPI_result_witness:
  "fst (locateRSDT_map (okPlatform zeroMemory) (PageFromAddress rsdpLocationLow) []) = None
   \<and> fst (locateRSDT (okPlatform zeroMemory) []) = Inl ErrMissingRSDP
   \<and> fst (probeForACPI (okPlatform zeroMemory) []) = None
   \<and> fst (locateRSDT (okPlatform rsdpV1Example) []) = Inr (0x1000, False)
   \<and> fst (probeForACPI (okPlatform rsdpV1Example) [])
       = Some \<lparr> mappedPages = [], rsdtAddr = 0x1000, useXSDT = False \<rparr>
   \<and> fst (locateRSDT_map (failingPlatform zeroMemory) (PageFromAddress rsdpLocationLow) [])
       = Some (ErrOther ''map failed'')
   \<and> fst (probeForACPI (failingPlatform zeroMemory) []) = None"
proof -
  have m: "fst (locateRSDT_map (okPlatform zeroMemory) (PageFromAddress rsdpLocationLow) [])
      = None"
    by code_simp
  have none: "\<forall>k<8192. \<not> signatureMatches (memory (okPlatform zeroMemory)) (candidate k)"
    by (simp add: okPlatform_def zeroMemory_no_signature)
  from m none have mn:
    "fst (locateRSDT_map (okPlatform zeroMemory) (PageFromAddress rsdpLocationLow) []) = None
      \<and> (\<forall>k<8192. \<not> signatureMatches (memory (okPlatform zeroMemory)) (candidate k))"
    by (rule conjI)
  note a = probeForACPI_result [where hw = "okPlatform zeroMemory" and tr = "[]",
      THEN conjunct2, THEN conjunct2, THEN conjunct1, THEN mp, OF mn]
  have found: "fst (locateRSDT (okPlatform rsdpV1Example) []) = Inr (0x1000, False)"
    by code_simp
  note b = probeForACPI_result [where hw = "okPlatform rsdpV1Example" and tr = "[]",
      THEN conjunct2, THEN conjunct1, THEN mp, OF found]
  have failed: "fst (locateRSDT_map (failingPlatform zeroMemory)
      (PageFromAddress rsdpLocationLow) []) = Some (ErrOther ''map failed'')"
    by code_simp
  note c = probeForACPI_result [where hw = "failingPlatform zeroMemory" and tr = "[]",
      THEN conjunct2, THEN conjunct2, THEN conjunct2, THEN conjunct1, THEN mp, OF failed]
  from m a found b failed c show ?thesis by blast
qed

end
